theory Spec2Isabelle
  imports Main "HOL-Library.Word" "HOL-Library.Signed_Division" "HOL-Library.Multiset"
begin

unbundle bit_operations_syntax

section \<open>Machine integers\<close>

text \<open>
  The program (\<^verbatim>\<open>bench.go\<close>) measures latencies as \<^verbatim>\<open>int64\<close> microseconds, hashes host
  names to a \<^verbatim>\<open>uint32\<close> and indexes its worker queues with an \<^verbatim>\<open>int\<close>. Go's \<^verbatim>\<open>int\<close> is
  taken at its width on the 64-bit targets. Addition and multiplication wrap around;
  comparison of \<^verbatim>\<open>int64\<close> values is the signed one (\<open><s\<close>, \<open>\<le>s\<close>); \<^verbatim>\<open>/\<close> and \<^verbatim>\<open>%\<close> on
  signed operands truncate towards zero. Division by zero panics in Go and is checked by
  the caller of \<open>go_quo\<close> and \<open>go_rem\<close> wherever the divisor is not a non-zero constant.
\<close>

type_synonym int64 = "64 word"
type_synonym uint32 = "32 word"
type_synonym go_int = "64 word"

definition go_quo :: "64 word \<Rightarrow> 64 word \<Rightarrow> 64 word" where
  "go_quo a b = word_of_int (sint a sdiv sint b)"

definition go_rem :: "64 word \<Rightarrow> 64 word \<Rightarrow> 64 word" where
  "go_rem a b = word_of_int (sint a smod sint b)"

section \<open>Data\<close>

text \<open>The structs \<^verbatim>\<open>task\<close> and \<^verbatim>\<open>benchResult\<close> (the field \<^verbatim>\<open>end\<close> is written \<open>end'\<close>).\<close>

record task =
  hostname :: string
  start :: string
  end' :: string

record benchResult =
  queryTime :: int64

text \<open>
  Every way the run can stop without printing its summary: the \<^verbatim>\<open>log.Fatal\<close> calls, the
  run-time panics of indexing, dividing and \<^verbatim>\<open>make\<close>, and \<open>Blocked\<close>: the main goroutine
  waits on a channel receive that no goroutine will ever serve.
\<close>

datatype failure =
    FatalWorkers
  | FatalHeader string
  | FatalParse string
  | PanicIndex
  | PanicDivide
  | PanicMakeslice
  | Blocked

section \<open>The hash of \<^verbatim>\<open>hash/fnv\<close>\<close>

text \<open>
  \<^verbatim>\<open>fnv.New32a()\<close> starts from the offset basis; \<^verbatim>\<open>Write\<close> folds each byte in with
  \<^verbatim>\<open>hash ^= c; hash *= prime32\<close>; \<^verbatim>\<open>Sum32\<close> returns the state. A Go string is its bytes,
  a \<open>string\<close> here.
\<close>

definition offset32 :: uint32 where
  "offset32 = 2166136261"

definition prime32 :: uint32 where
  "prime32 = 16777619"

fun write32a :: "uint32 \<Rightarrow> string \<Rightarrow> uint32" where
  "write32a hash [] = hash"
| "write32a hash (c # data) = write32a ((hash XOR of_char c) * prime32) data"

definition sum32a :: "string \<Rightarrow> uint32" where
  "sum32a data = write32a offset32 data"

section \<open>The dispatcher: \<^verbatim>\<open>processCSV\<close>\<close>

text \<open>
  \<^verbatim>\<open>chosenWorker := int(h.Sum32()) % numWorkers\<close> (line 109). The conversion of a
  \<^verbatim>\<open>uint32\<close> to the 64-bit \<^verbatim>\<open>int\<close> is the zero extension \<open>ucast\<close>.
\<close>

definition chosenWorker :: "go_int \<Rightarrow> string \<Rightarrow> go_int" where
  "chosenWorker numWorkers host = go_rem (ucast (sum32a host)) numWorkers"

text \<open>
  The CSV reader is a collaborator: what the successive calls of \<^verbatim>\<open>cr.Read()\<close> return is the
  input of the model, a list of records and parse errors; at the end of the list
  \<^verbatim>\<open>cr.Read()\<close> returns \<^verbatim>\<open>io.EOF\<close>.
\<close>

datatype read_result = Record "string list" | ReadError string

text \<open>
  The loop of lines 93 to 118. It returns the sends \<^verbatim>\<open>workers[chosenWorker] <- t\<close> it has
  made, in order, and the failure that ended the process, if any. Reading a field that the
  record does not have panics, as do a remainder by zero and an index outside
  \<^verbatim>\<open>workers\<close>; \<^verbatim>\<open>log.Fatalf\<close> exits the process.
\<close>

fun read_loop :: "go_int \<Rightarrow> read_result list \<Rightarrow> (go_int \<times> task) list \<times> failure option" where
  "read_loop numWorkers [] = ([], None)"
| "read_loop numWorkers (ReadError err # rest) = ([], Some (FatalParse err))"
| "read_loop numWorkers (Record record # rest) =
     (if length record \<le> 2 then ([], Some PanicIndex)
      else if numWorkers = 0 then ([], Some PanicDivide)
      else
        let w = chosenWorker numWorkers (record ! 0);
            t = \<lparr>hostname = record ! 0, start = record ! 1, end' = record ! 2\<rparr>
        in if \<not> (0 \<le>s w \<and> w <s numWorkers) then ([], Some PanicIndex)
           else case read_loop numWorkers rest of
                  (sends, stop) \<Rightarrow> ((w, t) # sends, stop))"

text \<open>
  \<^verbatim>\<open>processCSV\<close>: \<^verbatim>\<open>make\<close> panics on a negative length (the allocation itself is taken to
  succeed); the first read is the header, and any error there, \<^verbatim>\<open>io.EOF\<close> included, is
  fatal (lines 88 to 91).
\<close>

definition processCSV :: "go_int \<Rightarrow> read_result list \<Rightarrow> (go_int \<times> task) list \<times> failure option" where
  "processCSV numWorkers f =
     (if numWorkers <s 0 then ([], Some PanicMakeslice)
      else case f of
             [] \<Rightarrow> ([], Some (FatalHeader ''EOF''))
           | ReadError err # rest \<Rightarrow> ([], Some (FatalHeader err))
           | Record header # rest \<Rightarrow> read_loop numWorkers rest)"

section \<open>The worker\<close>

text \<open>
  What \<^verbatim>\<open>dbPool.QueryRow(...).Scan(...)\<close> returns for a task is given with the task: an error,
  or success together with the elapsed microseconds \<^verbatim>\<open>delta\<close> measured around the call.
  The worker's visible actions are its log lines and its sends on \<^verbatim>\<open>out\<close>.
\<close>

datatype query_result = QueryError string | QueryOk int64

datatype worker_event = LogStarting nat | LogFailed string | Send benchResult

text \<open>The loop \<^verbatim>\<open>for q := range in\<close> (lines 42 to 67), over the tasks the queue delivers.\<close>

fun worker_loop :: "(task \<times> query_result) list \<Rightarrow> worker_event list" where
  "worker_loop [] = []"
| "worker_loop ((q, QueryError err) # inq) = LogFailed err # worker_loop inq"
| "worker_loop ((q, QueryOk delta) # inq) = Send \<lparr>queryTime = delta\<rparr> # worker_loop inq"

definition worker :: "nat \<Rightarrow> (task \<times> query_result) list \<Rightarrow> worker_event list" where
  "worker wid inq = LogStarting wid # worker_loop inq"

fun sent :: "worker_event list \<Rightarrow> benchResult list" where
  "sent [] = []"
| "sent (Send r # evs) = r # sent evs"
| "sent (ev # evs) = sent evs"

section \<open>Queues and the results channel\<close>

text \<open>
  \<open>QueryRow i\<close> is the outcome of the query of the \<open>i\<close>-th data record. Worker \<open>w\<close>
  receives the tasks sent to \<^verbatim>\<open>workers[w]\<close>, in the order of the sends.
\<close>

definition jobs :: "(go_int \<times> task) list \<Rightarrow> (nat \<Rightarrow> query_result) \<Rightarrow> (go_int \<times> task \<times> query_result) list" where
  "jobs sends QueryRow = map (\<lambda>(i, (w, t)). (w, t, QueryRow i)) (enumerate 0 sends)"

definition queue :: "(go_int \<times> task \<times> query_result) list \<Rightarrow> nat \<Rightarrow> (task \<times> query_result) list" where
  "queue js w = map snd (filter (\<lambda>j. unat (fst j) = w) js)"

definition outputs :: "go_int \<Rightarrow> (go_int \<times> task \<times> query_result) list \<Rightarrow> benchResult list list" where
  "outputs numWorkers js = map (\<lambda>w. sent (worker w (queue js w))) [0..<unat numWorkers]"

text \<open>
  All workers send on the one unbuffered channel \<^verbatim>\<open>results\<close>. The receiver sees some
  interleaving of what the workers send: each received value is the next unsent value of
  one of the workers, and when \<^verbatim>\<open>done\<close> is signalled (after \<^verbatim>\<open>wg.Wait()\<close>) every worker has
  sent everything.
\<close>

fun interleaves :: "'a list list \<Rightarrow> 'a list \<Rightarrow> bool" where
  "interleaves qs [] = (\<forall>q \<in> set qs. q = [])"
| "interleaves qs (y # ys) =
     (\<exists>w \<in> set [0..<length qs].
        case qs ! w of [] \<Rightarrow> False | x # rest \<Rightarrow> x = y \<and> interleaves (qs[w := rest]) ys)"

definition delivers :: "go_int \<Rightarrow> read_result list \<Rightarrow> (nat \<Rightarrow> query_result) \<Rightarrow> benchResult list \<Rightarrow> bool" where
  "delivers numWorkers f QueryRow results =
     interleaves (outputs numWorkers (jobs (fst (processCSV numWorkers f)) QueryRow)) results"

section \<open>The collector: \<^verbatim>\<open>main\<close>\<close>

text \<open>The local variables of \<^verbatim>\<open>main\<close> that hold the statistics.\<close>

record collector =
  queryTimes :: "int64 list"
  minQueryTime :: int64
  maxQueryTime :: int64
  medianQueryTime :: int64
  totalQueryTime :: int64

text \<open>Lines 196 to 200, after the first receive.\<close>

definition first_result :: "benchResult \<Rightarrow> collector" where
  "first_result firstResult =
     \<lparr>queryTimes = [queryTime firstResult],
      minQueryTime = queryTime firstResult,
      maxQueryTime = queryTime firstResult,
      medianQueryTime = queryTime firstResult,
      totalQueryTime = queryTime firstResult\<rparr>"

text \<open>The \<^verbatim>\<open>case r := <-results\<close> branch of the \<^verbatim>\<open>select\<close> (lines 206 to 212).\<close>

definition on_result :: "collector \<Rightarrow> benchResult \<Rightarrow> collector" where
  "on_result c r =
     (let c' = c\<lparr>queryTimes := queryTimes c @ [queryTime r],
                 totalQueryTime := totalQueryTime c + queryTime r\<rparr>
      in if queryTime r <s minQueryTime c' then c'\<lparr>minQueryTime := queryTime r\<rparr>
         else if maxQueryTime c' <s queryTime r then c'\<lparr>maxQueryTime := queryTime r\<rparr>
         else c')"

text \<open>The loop \<^verbatim>\<open>out:\<close> over the values received before \<^verbatim>\<open>done\<close>.\<close>

fun collect_loop :: "collector \<Rightarrow> benchResult list \<Rightarrow> collector" where
  "collect_loop c [] = c"
| "collect_loop c (r # rs) = collect_loop (on_result c r) rs"

text \<open>
  Lines 222 to 230: \<^verbatim>\<open>sort.Slice\<close> with the signed \<^verbatim>\<open><\<close>, then the median. For \<open>n = 0\<close> the
  index \<^verbatim>\<open>n/2-1\<close> is \<open>-1\<close> and the read panics.
\<close>

definition median_pass :: "collector \<Rightarrow> failure + collector" where
  "median_pass c =
     (let sorted_times = sort_key sint (queryTimes c);
          n = length sorted_times
      in if n mod 2 = 0 then
           (if n = 0 then Inl PanicIndex
            else Inr (c\<lparr>queryTimes := sorted_times,
                        medianQueryTime :=
                          go_quo (sorted_times ! (n div 2 - 1) + sorted_times ! (n div 2)) 2\<rparr>))
         else Inr (c\<lparr>queryTimes := sorted_times, medianQueryTime := sorted_times ! (n div 2)\<rparr>))"

text \<open>
  Lines 192 to 230 on the values \<open>results\<close> that the channel delivers before \<^verbatim>\<open>done\<close>.
  The first receive (line 195) is outside the \<^verbatim>\<open>select\<close>: it listens to \<^verbatim>\<open>results\<close> only,
  the channel is never closed, and \<^verbatim>\<open>processCSV\<close> in turn waits in \<^verbatim>\<open>done <- true\<close> for a
  receiver; with nothing delivered the goroutine stays there.
\<close>

definition collect :: "benchResult list \<Rightarrow> failure + collector" where
  "collect results =
     (case results of
        [] \<Rightarrow> Inl Blocked
      | firstResult # rs \<Rightarrow> median_pass (collect_loop (first_result firstResult) rs))"

text \<open>The numbers of the printed summary (lines 232 to 238).\<close>

record report =
  numQueries :: nat
  totalMs :: int64
  minMs :: int64
  maxMs :: int64
  meanMs :: int64
  medianMs :: int64

definition summary :: "collector \<Rightarrow> failure + report" where
  "summary c =
     (if (of_nat (length (queryTimes c)) :: int64) = 0 then Inl PanicDivide
      else Inr \<lparr>numQueries = length (queryTimes c),
                totalMs = go_quo (totalQueryTime c) 1000,
                minMs = go_quo (minQueryTime c) 1000,
                maxMs = go_quo (maxQueryTime c) 1000,
                meanMs = go_quo (go_quo (totalQueryTime c) (of_nat (length (queryTimes c)))) 1000,
                medianMs = go_quo (medianQueryTime c) 1000\<rparr>)"

text \<open>
  \<^verbatim>\<open>main\<close> from the check of the worker count (line 158) on, with the environment set and
  the database connected. A failure of \<^verbatim>\<open>processCSV\<close> ends the process before \<^verbatim>\<open>done\<close> is
  sent, hence before the summary.
\<close>

definition main :: "go_int \<Rightarrow> read_result list \<Rightarrow> benchResult list \<Rightarrow> failure + report" where
  "main numWorkers f results =
     (if numWorkers <s 1 then Inl FatalWorkers
      else case snd (processCSV numWorkers f) of
             Some stop \<Rightarrow> Inl stop
           | None \<Rightarrow> (case collect results of
                        Inl stop \<Rightarrow> Inl stop
                      | Inr c \<Rightarrow> summary c))"

section \<open>Reference notions of the specification\<close>

text \<open>
  The median in the words of the specification, on a list \<open>a\<close> that is already sorted
  ascending: for an even count the truncated mean of the two central values, for an odd
  count the central value. It is compared with what \<open>median_pass\<close> computes.
\<close>

definition spec_median :: "int64 list \<Rightarrow> int64" where
  "spec_median a =
     (let n = length a
      in if even n then go_quo (a ! (n div 2 - 1) + a ! (n div 2)) 2 else a ! (n div 2))"

text \<open>The query of a record succeeded.\<close>

fun succeeded :: "query_result \<Rightarrow> bool" where
  "succeeded (QueryOk delta) = True"
| "succeeded (QueryError err) = False"

section \<open>An end-to-end scenario\<close>

text \<open>
  A header and four records for the hosts \<open>a\<close> and \<open>b\<close>; the third query fails, the
  others take 1500, 700 and 2300 microseconds.
\<close>

definition scenario :: "read_result list" where
  "scenario =
     [Record [''hostname'', ''start'', ''end''],
      Record [''a'', ''2017-01-01 08:59:22'', ''2017-01-01 09:59:22''],
      Record [''b'', ''2017-01-02 13:02:02'', ''2017-01-02 14:02:02''],
      Record [''a'', ''2017-01-02 18:50:28'', ''2017-01-02 19:50:28''],
      Record [''b'', ''2017-01-01 21:33:35'', ''2017-01-01 22:33:35'']]"

definition scenario_QueryRow :: "nat \<Rightarrow> query_result" where
  "scenario_QueryRow i =
     (if i = 0 then QueryOk 1500 else if i = 1 then QueryOk 700
      else if i = 2 then QueryError ''timeout'' else QueryOk 2300)"

section \<open>Facts about the machine integers\<close>

lemma sint_inj: "inj (sint :: 64 word \<Rightarrow> int)"
  by (rule injI) (rule signed_word_eqI)

lemma sle_antisym: "a \<le>s b \<Longrightarrow> b \<le>s a \<Longrightarrow> a = (b :: 64 word)"
  by (rule signed_word_eqI [where ?'a = int]) (simp add: word_sle_eq)

lemma sint_hash: "sint (ucast (h :: 32 word) :: 64 word) = uint h"
proof -
  have "uint h < 2 ^ 32" using uint_bounded [of h] by simp
  then have "uint h < 2 ^ 63" by simp
  moreover have "- (2 ^ 63) \<le> uint h" 
    by (rule order_trans [of _ 0]) simp_all
  ultimately show ?thesis
    by (simp add: signed_ucast_eq signed_take_bit_int_eq_self)
qed

lemma sint_word_of_int_small:
  "- (2 ^ 63) \<le> k \<Longrightarrow> k < 2 ^ 63 \<Longrightarrow> sint (word_of_int k :: 64 word) = k"
  by (simp add: sint_sbintrunc' signed_take_bit_int_eq_self)

lemma smod_nonneg: "0 \<le> a \<Longrightarrow> 1 \<le> b \<Longrightarrow> a smod b = a mod (b :: int)"
  by (cases "a = 0") (simp_all add: smod_int_alt_def sgn_if)

lemma uint_of_nonneg_sint:
  assumes "0 \<le> sint (w :: 64 word)"
  shows "uint w = sint w"
proof -
  have "sint w < 2 ^ 63" using sint_lt [of w] by simp
  then have "sint w < 2 ^ 64" by simp
  with assms have "take_bit 64 (sint w) = sint w"
    by (intro take_bit_int_eq_self)
  moreover have "uint w = take_bit 64 (sint w)"
    using uint_sint [of w] by simp
  ultimately show ?thesis by (rule_tac trans)
qed

section \<open>The worker index\<close>

lemma sint_chosenWorker:
  assumes "1 \<le>s numWorkers"
  shows "sint (chosenWorker numWorkers host) = uint (sum32a host) mod sint numWorkers"
proof -
  let ?h = "uint (sum32a host)"
  let ?n = "sint numWorkers"
  have n: "1 \<le> ?n" using assms by (simp add: word_sle_eq)
  have nb: "?n < 2 ^ 63" using sint_lt [of numWorkers] by simp
  have h: "0 \<le> ?h" by simp
  have "?h smod ?n = ?h mod ?n"
    using n by (intro smod_nonneg) simp_all
  moreover have "0 \<le> ?h mod ?n" "?h mod ?n < ?n"
    using n by simp_all
  ultimately show ?thesis
    using nb by (simp add: chosenWorker_def go_rem_def sint_hash sint_word_of_int_small)
qed

lemma chosenWorker_bounds:
  assumes "1 \<le>s numWorkers"
  shows "0 \<le>s chosenWorker numWorkers host \<and> chosenWorker numWorkers host <s numWorkers"
proof -
  have n: "1 \<le> sint numWorkers" using assms by (simp add: word_sle_eq)
  then show ?thesis
    by (simp add: word_sle_eq word_sless_alt sint_chosenWorker [OF assms])
qed

lemma unat_chosenWorker:
  assumes "1 \<le>s numWorkers"
  shows "unat (chosenWorker numWorkers host) = unat (sum32a host) mod unat numWorkers"
proof -
  have n: "1 \<le> sint numWorkers" using assms by (simp add: word_sle_eq)
  have un: "uint numWorkers = sint numWorkers"
    by (rule uint_of_nonneg_sint) (use n in simp)
  have w: "sint (chosenWorker numWorkers host) = uint (sum32a host) mod sint numWorkers"
    by (rule sint_chosenWorker [OF assms])
  have "0 \<le> sint (chosenWorker numWorkers host)"
    using n by (simp add: w)
  then have "uint (chosenWorker numWorkers host) = sint (chosenWorker numWorkers host)"
    by (rule uint_of_nonneg_sint)
  then have "uint (chosenWorker numWorkers host) = uint (sum32a host) mod uint numWorkers"
    by (simp only: w un)
  then have "int (unat (chosenWorker numWorkers host)) = int (unat (sum32a host) mod unat numWorkers)"
    by (simp only: uint_nat zmod_int)
  then show ?thesis by (simp only: of_nat_eq_iff)
qed

lemma workers_positive:
  assumes "1 \<le>s (numWorkers :: 64 word)"
  shows "0 < unat numWorkers \<and> numWorkers \<noteq> 0 \<and> \<not> numWorkers <s 0 \<and> \<not> numWorkers <s 1"
proof -
  have n: "1 \<le> sint numWorkers" using assms by (simp add: word_sle_eq)
  then have "numWorkers \<noteq> 0" by auto
  moreover from this have "0 < unat numWorkers" by (simp add: unat_gt_0)
  ultimately show ?thesis using n by (simp add: word_sless_alt)
qed

text \<open>
  Claim C9. For every host name and every pool size \<open>numWorkers \<ge> 1\<close>, the index
  \<^verbatim>\<open>int(h.Sum32()) % numWorkers\<close> is non-negative and strictly below \<open>numWorkers\<close>, as a
  signed \<^verbatim>\<open>int\<close> and as the position read in \<^verbatim>\<open>workers\<close>; the dispatcher therefore makes
  the send for a record of three fields and does not panic on the index.
\<close>

theorem worker_index_in_bounds:
  assumes "1 \<le>s numWorkers"
  shows "0 \<le>s chosenWorker numWorkers host
     \<and> chosenWorker numWorkers host <s numWorkers
     \<and> unat (chosenWorker numWorkers host) < unat numWorkers
     \<and> read_loop numWorkers [Record [host, s, e]]
         = ([(chosenWorker numWorkers host, \<lparr>hostname = host, start = s, end' = e\<rparr>)], None)"
proof -
  have pos: "0 < unat numWorkers" "numWorkers \<noteq> 0"
    using workers_positive [OF assms] by simp_all
  then have "unat (chosenWorker numWorkers host) < unat numWorkers"
    by (simp add: unat_chosenWorker [OF assms])
  moreover have "read_loop numWorkers [Record [host, s, e]]
         = ([(chosenWorker numWorkers host, \<lparr>hostname = host, start = s, end' = e\<rparr>)], None)"
    using pos chosenWorker_bounds [OF assms, of host] by (simp add: Let_def)
  ultimately show ?thesis
    using chosenWorker_bounds [OF assms, of host] by simp
qed

theorem worker_index_in_bounds_witness:
  "(1 :: 64 word) \<le>s 2 \<and> chosenWorker 2 ''a'' = 0 \<and> chosenWorker 2 ''b'' = 1
   \<and> unat (chosenWorker 2 ''b'') < unat (2 :: 64 word)"
  using worker_index_in_bounds [of 2 "''b''" "''s''" "''e''"]
  by (simp add: chosenWorker_def sum32a_def offset32_def prime32_def go_rem_def
      signed_modulo_int_def word_sle_eq)

section \<open>The dispatcher\<close>

lemma read_loop_index:
  "(w, t) \<in> set (fst (read_loop numWorkers rest)) \<Longrightarrow> w = chosenWorker numWorkers (hostname t)"
proof (induction numWorkers rest rule: read_loop.induct)
  case (3 n r rest)
  then show ?case
    by (auto simp: Let_def split: if_splits prod.splits)
qed simp_all

lemma processCSV_index:
  "(w, t) \<in> set (fst (processCSV numWorkers f)) \<Longrightarrow> w = chosenWorker numWorkers (hostname t)"
  by (auto simp: processCSV_def split: if_splits list.splits read_result.splits
      dest: read_loop_index)

text \<open>
  Claim C4. Partitioning is deterministic. With a pool of \<open>numWorkers \<ge> 1\<close>, the worker
  index of every task that \<^verbatim>\<open>processCSV\<close> sends is the FNV-32a hash of the task's host name
  modulo \<open>numWorkers\<close>, a function of the key and the pool size alone: two tasks with the
  same key, in the same run or in two runs on different inputs, go to the same worker.
\<close>

theorem partitioning_deterministic:
  assumes "1 \<le>s numWorkers"
    and "(w, t) \<in> set (fst (processCSV numWorkers f))"
    and "(w', t') \<in> set (fst (processCSV numWorkers f'))"
    and "hostname t' = hostname t"
  shows "w' = w \<and> w = chosenWorker numWorkers (hostname t)
     \<and> unat w = unat (sum32a (hostname t)) mod unat numWorkers"
proof -
  have "w = chosenWorker numWorkers (hostname t)"
    by (rule processCSV_index [OF assms(2)])
  moreover have "w' = chosenWorker numWorkers (hostname t')"
    by (rule processCSV_index [OF assms(3)])
  ultimately show ?thesis
    using assms(4) unat_chosenWorker [OF assms(1)] by simp
qed

theorem partitioning_deterministic_witness:
  "(1 :: 64 word) \<le>s 2
   \<and> (0, \<lparr>hostname = ''a'', start = ''2017-01-01 08:59:22'', end' = ''2017-01-01 09:59:22''\<rparr>)
        \<in> set (fst (processCSV 2 scenario))
   \<and> (0, \<lparr>hostname = ''a'', start = ''s'', end' = ''e''\<rparr>)
        \<in> set (fst (processCSV 2 [Record [''h''], Record [''a'', ''s'', ''e'']]))
   \<and> (0 :: 64 word) = chosenWorker 2 ''a''
   \<and> unat (0 :: 64 word) = unat (sum32a ''a'') mod unat (2 :: 64 word)"
proof -
  have h1: "(1 :: 64 word) \<le>s 2" by code_simp
  have h2: "(0, \<lparr>hostname = ''a'', start = ''2017-01-01 08:59:22'', end' = ''2017-01-01 09:59:22''\<rparr>)
        \<in> set (fst (processCSV 2 scenario))" by code_simp
  have h3: "(0, \<lparr>hostname = ''a'', start = ''s'', end' = ''e''\<rparr>)
        \<in> set (fst (processCSV 2 [Record [''h''], Record [''a'', ''s'', ''e'']]))" by code_simp
  have h4: "hostname \<lparr>hostname = ''a'', start = ''s'', end' = ''e''\<rparr>
      = hostname \<lparr>hostname = ''a'', start = ''2017-01-01 08:59:22'', end' = ''2017-01-01 09:59:22''\<rparr>"
    by simp
  from partitioning_deterministic [OF h1 h2 h3 h4] h1 h2 h3 show ?thesis by simp
qed

text \<open>
  Claim C10. An input without any record, not even a header, is fatal: the header read
  returns \<^verbatim>\<open>io.EOF\<close>, \<^verbatim>\<open>processCSV\<close> stops with the fatal header error before it has sent any
  task, and \<^verbatim>\<open>main\<close> ends with that error instead of a summary, whatever the channel
  delivers.
\<close>

theorem empty_input_fatal:
  assumes "1 \<le>s numWorkers"
  shows "processCSV numWorkers [] = ([], Some (FatalHeader ''EOF''))
     \<and> main numWorkers [] results = Inl (FatalHeader ''EOF'')"
  using workers_positive [OF assms] by (simp add: processCSV_def main_def)

theorem empty_input_fatal_witness:
  "(1 :: 64 word) \<le>s 2 \<and> processCSV 2 [] = ([], Some (FatalHeader ''EOF''))
   \<and> main 2 [] [] = Inl (FatalHeader ''EOF'')"
  using empty_input_fatal [of 2 "[]"] by (simp add: word_sle_eq)

section \<open>The collector\<close>

lemma on_result_queryTimes: "queryTimes (on_result c r) = queryTimes c @ [queryTime r]"
  by (simp add: on_result_def Let_def)

lemma on_result_total: "totalQueryTime (on_result c r) = totalQueryTime c + queryTime r"
  by (simp add: on_result_def Let_def)

lemma on_result_extremes:
  assumes "minQueryTime c \<in> set (queryTimes c)" and "maxQueryTime c \<in> set (queryTimes c)"
    and "\<forall>t \<in> set (queryTimes c). minQueryTime c \<le>s t \<and> t \<le>s maxQueryTime c"
  shows "minQueryTime (on_result c r) \<in> set (queryTimes (on_result c r))
       \<and> maxQueryTime (on_result c r) \<in> set (queryTimes (on_result c r))
       \<and> (\<forall>t \<in> set (queryTimes (on_result c r)).
            minQueryTime (on_result c r) \<le>s t \<and> t \<le>s maxQueryTime (on_result c r))"
proof -
  have mm: "minQueryTime c \<le>s maxQueryTime c"
    using assms by blast
  show ?thesis
    using assms mm
    by (auto simp: on_result_def Let_def word_sless_alt word_sle_eq)
qed

lemma collect_loop_queryTimes:
  "queryTimes (collect_loop c rs) = queryTimes c @ map queryTime rs"
  by (induction rs arbitrary: c) (simp_all add: on_result_queryTimes)

lemma collect_loop_total:
  "totalQueryTime (collect_loop c rs) = totalQueryTime c + sum_list (map queryTime rs)"
  by (induction rs arbitrary: c) (simp_all add: on_result_total add.assoc)

lemma collect_loop_extremes:
  assumes "minQueryTime c \<in> set (queryTimes c)" and "maxQueryTime c \<in> set (queryTimes c)"
    and "\<forall>t \<in> set (queryTimes c). minQueryTime c \<le>s t \<and> t \<le>s maxQueryTime c"
  shows "minQueryTime (collect_loop c rs) \<in> set (queryTimes (collect_loop c rs))
       \<and> maxQueryTime (collect_loop c rs) \<in> set (queryTimes (collect_loop c rs))
       \<and> (\<forall>t \<in> set (queryTimes (collect_loop c rs)).
            minQueryTime (collect_loop c rs) \<le>s t \<and> t \<le>s maxQueryTime (collect_loop c rs))"
  using assms
proof (induction rs arbitrary: c)
  case Nil
  then show ?case by simp
next
  case (Cons r rs)
  have "minQueryTime (on_result c r) \<in> set (queryTimes (on_result c r))
       \<and> maxQueryTime (on_result c r) \<in> set (queryTimes (on_result c r))
       \<and> (\<forall>t \<in> set (queryTimes (on_result c r)).
            minQueryTime (on_result c r) \<le>s t \<and> t \<le>s maxQueryTime (on_result c r))"
    by (rule on_result_extremes) (use Cons.prems in blast)+
  then show ?case
    using Cons.IH [of "on_result c r"] by simp
qed

lemma median_pass_nonempty:
  assumes "queryTimes c \<noteq> []"
  shows "median_pass c =
    Inr (c\<lparr>queryTimes := sort_key sint (queryTimes c),
           medianQueryTime := spec_median (sort_key sint (queryTimes c))\<rparr>)"
  using assms by (simp add: median_pass_def spec_median_def Let_def even_iff_mod_2_eq_zero)

lemma collect_Cons:
  "collect (x # rs) =
     Inr ((collect_loop (first_result x) rs)
            \<lparr>queryTimes := sort_key sint (map queryTime (x # rs)),
             medianQueryTime := spec_median (sort_key sint (map queryTime (x # rs)))\<rparr>)"
proof -
  have qt: "queryTimes (collect_loop (first_result x) rs) = map queryTime (x # rs)"
    by (simp add: collect_loop_queryTimes first_result_def)
  then have "queryTimes (collect_loop (first_result x) rs) \<noteq> []" by simp
  from median_pass_nonempty [OF this] show ?thesis
    by (simp add: collect_def qt)
qed

lemma sorted_sint_unique:
  assumes "sorted (map sint a)" and "mset a = mset (ts :: 64 word list)"
  shows "sort_key sint ts = a"
proof (rule sort_key_inj_key_eq)
  show "mset ts = mset a" using assms(2) by simp
  show "inj_on sint (set ts)" by (rule inj_on_subset [OF sint_inj]) simp
  show "sorted (map sint a)" by (rule assms(1))
qed

text \<open>
  Claim C8. The collector's invariant. After the first result and any number \<open>k\<close> of
  iterations of the loop, the number of retained samples is the number of results
  received, \<^verbatim>\<open>queryTimes\<close> holds them in the order of arrival, \<^verbatim>\<open>totalQueryTime\<close> is their
  (wrapping) sum, \<^verbatim>\<open>minQueryTime\<close> and \<^verbatim>\<open>maxQueryTime\<close> are elements of \<^verbatim>\<open>queryTimes\<close>, and
  \<^verbatim>\<open>minQueryTime\<close> is at most \<^verbatim>\<open>maxQueryTime\<close>.
\<close>

theorem collector_invariant:
  "let c = collect_loop (first_result firstResult) (take k rs)
   in length (queryTimes c) = Suc (length (take k rs))
      \<and> queryTimes c = map queryTime (firstResult # take k rs)
      \<and> totalQueryTime c = sum_list (queryTimes c)
      \<and> minQueryTime c \<in> set (queryTimes c)
      \<and> maxQueryTime c \<in> set (queryTimes c)
      \<and> minQueryTime c \<le>s maxQueryTime c"
proof -
  define c where "c = collect_loop (first_result firstResult) (take k rs)"
  have qt: "queryTimes c = map queryTime (firstResult # take k rs)"
    by (simp add: c_def collect_loop_queryTimes first_result_def)
  have tot: "totalQueryTime c = sum_list (queryTimes c)"
    by (simp add: qt) (simp add: c_def collect_loop_total first_result_def)
  have ext: "minQueryTime c \<in> set (queryTimes c) \<and> maxQueryTime c \<in> set (queryTimes c)
       \<and> (\<forall>t \<in> set (queryTimes c). minQueryTime c \<le>s t \<and> t \<le>s maxQueryTime c)"
    unfolding c_def
    by (rule collect_loop_extremes) (simp_all add: first_result_def)
  then have "minQueryTime c \<le>s maxQueryTime c" by blast
  with qt tot ext show ?thesis
    unfolding c_def [symmetric] Let_def by simp
qed

text \<open>
  Claim C2. For every non-empty sequence of results the collector finishes, and its final
  \<^verbatim>\<open>minQueryTime\<close> is the least and its final \<^verbatim>\<open>maxQueryTime\<close> the greatest sample in the
  signed order: both are samples, and every sample lies between them. The \<^verbatim>\<open>else if\<close>
  of the update loses nothing, because a sample below the minimum cannot exceed the
  maximum.
\<close>

theorem min_max_are_extremes:
  assumes "results \<noteq> []"
  shows "\<exists>c. collect results = Inr c
     \<and> minQueryTime c \<in> queryTime ` set results
     \<and> maxQueryTime c \<in> queryTime ` set results
     \<and> (\<forall>r \<in> set results. minQueryTime c \<le>s queryTime r \<and> queryTime r \<le>s maxQueryTime c)
     \<and> sint (minQueryTime c) = Min (sint ` queryTime ` set results)
     \<and> sint (maxQueryTime c) = Max (sint ` queryTime ` set results)"
proof -
  from assms obtain x rs where res: "results = x # rs" by (cases results) auto
  define l where "l = collect_loop (first_result x) rs"
  have qt: "queryTimes l = map queryTime results"
    by (simp add: l_def res collect_loop_queryTimes first_result_def)
  have ext: "minQueryTime l \<in> set (queryTimes l) \<and> maxQueryTime l \<in> set (queryTimes l)
       \<and> (\<forall>t \<in> set (queryTimes l). minQueryTime l \<le>s t \<and> t \<le>s maxQueryTime l)"
    unfolding l_def
    by (rule collect_loop_extremes) (simp_all add: first_result_def)
  have mn: "minQueryTime l \<in> queryTime ` set results" and mx: "maxQueryTime l \<in> queryTime ` set results"
    and bd: "\<forall>r \<in> set results. minQueryTime l \<le>s queryTime r \<and> queryTime r \<le>s maxQueryTime l"
    using ext by (simp_all add: qt)
  have "Min (sint ` queryTime ` set results) = sint (minQueryTime l)"
    by (rule Min_eqI) (use mn bd in \<open>auto simp: word_sle_eq\<close>)
  moreover have "Max (sint ` queryTime ` set results) = sint (maxQueryTime l)"
    by (rule Max_eqI) (use mx bd in \<open>auto simp: word_sle_eq\<close>)
  moreover have "collect results =
     Inr (l\<lparr>queryTimes := sort_key sint (map queryTime results),
            medianQueryTime := spec_median (sort_key sint (map queryTime results))\<rparr>)"
    unfolding res l_def by (rule collect_Cons)
  ultimately show ?thesis
    using mn mx bd by simp
qed

theorem min_max_are_extremes_witness:
  "[\<lparr>queryTime = 300\<rparr>, \<lparr>queryTime = 100\<rparr>, \<lparr>queryTime = 400\<rparr>, \<lparr>queryTime = 100\<rparr>] \<noteq> []
   \<and> (\<exists>c. collect [\<lparr>queryTime = 300\<rparr>, \<lparr>queryTime = 100\<rparr>, \<lparr>queryTime = 400\<rparr>, \<lparr>queryTime = 100\<rparr>] = Inr c
        \<and> minQueryTime c = 100 \<and> maxQueryTime c = 400)"
  using min_max_are_extremes [of "[\<lparr>queryTime = 300\<rparr>, \<lparr>queryTime = 100\<rparr>, \<lparr>queryTime = 400\<rparr>, \<lparr>queryTime = 100\<rparr>]"]
  by (simp add: collect_def first_result_def on_result_def Let_def median_pass_def word_sless_alt)

text \<open>
  Claim C3. For every non-empty sequence of results and the ascending arrangement \<open>a\<close> of
  its samples, the collector ends with \<^verbatim>\<open>queryTimes\<close> equal to \<open>a\<close> and the median
  \<open>(a[n/2-1] + a[n/2]) / 2\<close>, truncated, for an even count \<open>n\<close>, and \<open>a[n/2]\<close> for an odd
  count. The samples 100, 200, 300, 400 give 250; the samples 100, 200, 300 (in any
  order of arrival) give 200; 100 and 201 give 150.
\<close>

theorem median_formula:
  assumes "results \<noteq> []" and "sorted (map sint a)" and "mset a = mset (map queryTime results)"
  shows "\<exists>c. collect results = Inr c \<and> queryTimes c = a
     \<and> medianQueryTime c =
         (if even (length a) then go_quo (a ! (length a div 2 - 1) + a ! (length a div 2)) 2
          else a ! (length a div 2))"
proof -
  from assms(1) obtain x rs where res: "results = x # rs" by (cases results) auto
  have "sort_key sint (map queryTime results) = a"
    by (rule sorted_sint_unique) (use assms in simp_all)
  then show ?thesis
    unfolding res by (simp add: collect_Cons spec_median_def Let_def)
qed

theorem median_formula_witness:
  "(\<exists>c. collect [\<lparr>queryTime = 100\<rparr>, \<lparr>queryTime = 200\<rparr>, \<lparr>queryTime = 300\<rparr>, \<lparr>queryTime = 400\<rparr>] = Inr c
        \<and> medianQueryTime c = 250)
   \<and> (\<exists>c. collect [\<lparr>queryTime = 300\<rparr>, \<lparr>queryTime = 100\<rparr>, \<lparr>queryTime = 200\<rparr>] = Inr c
        \<and> medianQueryTime c = 200)
   \<and> (\<exists>c. collect [\<lparr>queryTime = 201\<rparr>, \<lparr>queryTime = 100\<rparr>] = Inr c
        \<and> medianQueryTime c = 150)"
proof -
  have e: "go_quo (200 + 300) 2 = 250" by (simp add: go_quo_def signed_divide_int_def)
  have e': "go_quo (100 + 201) 2 = 150" by (simp add: go_quo_def signed_divide_int_def)
  have "\<exists>c. collect [\<lparr>queryTime = 201\<rparr>, \<lparr>queryTime = 100\<rparr>] = Inr c
        \<and> queryTimes c = [100, 201] \<and> medianQueryTime c = 150"
    using median_formula [of "[\<lparr>queryTime = 201\<rparr>, \<lparr>queryTime = 100\<rparr>]" "[100, 201]"] e'
    by simp
  moreover
  have "\<exists>c. collect [\<lparr>queryTime = 100\<rparr>, \<lparr>queryTime = 200\<rparr>, \<lparr>queryTime = 300\<rparr>, \<lparr>queryTime = 400\<rparr>] = Inr c
        \<and> queryTimes c = [100, 200, 300, 400] \<and> medianQueryTime c = 250"
    using median_formula [of "[\<lparr>queryTime = 100\<rparr>, \<lparr>queryTime = 200\<rparr>, \<lparr>queryTime = 300\<rparr>, \<lparr>queryTime = 400\<rparr>]" "[100, 200, 300, 400]"] e
    by simp
  moreover have "\<exists>c. collect [\<lparr>queryTime = 300\<rparr>, \<lparr>queryTime = 100\<rparr>, \<lparr>queryTime = 200\<rparr>] = Inr c
        \<and> queryTimes c = [100, 200, 300] \<and> medianQueryTime c = 200"
    using median_formula [of "[\<lparr>queryTime = 300\<rparr>, \<lparr>queryTime = 100\<rparr>, \<lparr>queryTime = 200\<rparr>]" "[100, 200, 300]"]
    by simp
  ultimately show ?thesis by blast
qed

section \<open>What the channel delivers\<close>

lemma collect_mset:
  assumes "mset r1 = mset r2"
  shows "collect r1 = collect r2"
proof (cases r1)
  case Nil
  with assms show ?thesis by simp
next
  case (Cons x xs)
  with assms have "r2 \<noteq> []" by auto
  then obtain y ys where r2: "r2 = y # ys" by (cases r2) auto
  define c1 where "c1 = collect_loop (first_result x) xs"
  define c2 where "c2 = collect_loop (first_result y) ys"
  have ts: "mset (map queryTime r1) = mset (map queryTime r2)"
    using assms by (metis mset_map)
  then have st: "set (map queryTime r1) = set (map queryTime r2)"
    by (rule mset_eq_setD)
  have q1: "queryTimes c1 = map queryTime r1"
    by (simp add: c1_def Cons collect_loop_queryTimes first_result_def)
  have q2: "queryTimes c2 = map queryTime r2"
    by (simp add: c2_def r2 collect_loop_queryTimes first_result_def)
  have e1: "minQueryTime c1 \<in> set (queryTimes c1) \<and> maxQueryTime c1 \<in> set (queryTimes c1)
       \<and> (\<forall>t \<in> set (queryTimes c1). minQueryTime c1 \<le>s t \<and> t \<le>s maxQueryTime c1)"
    unfolding c1_def by (rule collect_loop_extremes) (simp_all add: first_result_def)
  have e2: "minQueryTime c2 \<in> set (queryTimes c2) \<and> maxQueryTime c2 \<in> set (queryTimes c2)
       \<and> (\<forall>t \<in> set (queryTimes c2). minQueryTime c2 \<le>s t \<and> t \<le>s maxQueryTime c2)"
    unfolding c2_def by (rule collect_loop_extremes) (simp_all add: first_result_def)
  have same: "set (queryTimes c1) = set (queryTimes c2)"
    using st by (simp only: q1 q2)
  have mn: "minQueryTime c1 = minQueryTime c2"
    by (rule sle_antisym) (use e1 e2 same in blast)+
  have mx: "maxQueryTime c1 = maxQueryTime c2"
    by (rule sle_antisym) (use e1 e2 same in blast)+
  have "totalQueryTime c1 = sum_list (map queryTime r1)"
    by (simp add: c1_def Cons collect_loop_total first_result_def)
  moreover have "totalQueryTime c2 = sum_list (map queryTime r2)"
    by (simp add: c2_def r2 collect_loop_total first_result_def)
  moreover have "sum_list (map queryTime r1) = sum_list (map queryTime r2)"
    using ts by (metis sum_mset_sum_list)
  ultimately have tot: "totalQueryTime c1 = totalQueryTime c2" by simp
  have srt: "sort_key sint (map queryTime r1) = sort_key sint (map queryTime r2)"
    by (rule sort_key_eq_sort_key [OF ts]) (rule inj_on_subset [OF sint_inj], simp)
  have "collect r1 = Inr (c1\<lparr>queryTimes := sort_key sint (map queryTime r1),
            medianQueryTime := spec_median (sort_key sint (map queryTime r1))\<rparr>)"
    unfolding Cons c1_def by (rule collect_Cons)
  moreover have "collect r2 = Inr (c2\<lparr>queryTimes := sort_key sint (map queryTime r2),
            medianQueryTime := spec_median (sort_key sint (map queryTime r2))\<rparr>)"
    unfolding r2 c2_def by (rule collect_Cons)
  ultimately show ?thesis
    using mn mx tot srt by (simp add: collector.equality)
qed

lemma interleaves_mset: "interleaves qs ys \<Longrightarrow> mset ys = mset (concat qs)"
proof (induction ys arbitrary: qs)
  case Nil
  then have "concat qs = []" by simp
  then show ?case by simp
next
  case (Cons y ys)
  from Cons.prems obtain w where w: "w < length qs"
    and c: "case qs ! w of [] \<Rightarrow> False | x # rest \<Rightarrow> x = y \<and> interleaves (qs[w := rest]) ys"
    by auto
  then obtain rest where q: "qs ! w = y # rest" and rec: "interleaves (qs[w := rest]) ys"
    by (cases "qs ! w") auto
  have "mset ys = mset (concat (qs[w := rest]))" by (rule Cons.IH [OF rec])
  moreover have "qs = take w qs @ (y # rest) # drop (Suc w) qs"
    using id_take_nth_drop [OF w] q by simp
  moreover have "qs[w := rest] = take w qs @ rest # drop (Suc w) qs"
    by (rule upd_conv_take_nth_drop [OF w])
  ultimately have "mset ys = mset (concat (take w qs @ rest # drop (Suc w) qs))"
    and "mset (concat qs) = mset (concat (take w qs @ (y # rest) # drop (Suc w) qs))"
    by simp_all
  then show ?case by simp
qed

lemma worker_loop_append:
  "worker_loop (pre @ post) = worker_loop pre @ worker_loop post"
  by (induction pre rule: worker_loop.induct) simp_all

lemma sent_append: "sent (xs @ ys) = sent xs @ sent ys"
  by (induction xs rule: sent.induct) simp_all

lemma sent_worker: "sent (worker wid inq) = sent (worker_loop inq)"
  by (simp add: worker_def)

lemma sent_loop_append:
  "sent (worker_loop (pre @ post)) = sent (worker_loop pre) @ sent (worker_loop post)"
  by (induction pre rule: worker_loop.induct) simp_all

lemma queue_Cons:
  "queue (j # js) w = (if unat (fst j) = w then snd j # queue js w else queue js w)"
  by (simp add: queue_def)

lemma queue_append: "queue (js1 @ js2) w = queue js1 w @ queue js2 w"
  by (simp add: queue_def)

lemma sum_list_one_owner:
  fixes a :: "'a multiset"
  assumes "k < n"
  shows "sum_list (map (\<lambda>w. (if w = k then a else {#}) + g w) [0..<n]) = a + sum_list (map g [0..<n])"
  using assms
proof (induction n)
  case 0
  then show ?case by simp
next
  case (Suc n)
  show ?case
  proof (cases "k = n")
    case True
    have "sum_list (map (\<lambda>w. (if w = k then a else {#}) + g w) [0..<n]) = sum_list (map g [0..<n])"
      by (rule arg_cong [where f = sum_list], rule map_cong) (simp_all add: True)
    then show ?thesis by (simp add: True)
  next
    case False
    with Suc.prems have "k < n" by simp
    from Suc.IH [OF this] show ?thesis using False by simp
  qed
qed

lemma outputs_concat:
  "mset (concat (outputs numWorkers js))
     = sum_list (map (\<lambda>w. mset (sent (worker_loop (queue js w)))) [0..<unat numWorkers])"
  by (simp only: outputs_def mset_concat map_map comp_def sent_worker)

lemma outputs_mset:
  assumes "\<forall>j \<in> set js. unat (fst j) < unat numWorkers"
  shows "mset (concat (outputs numWorkers js)) = mset (sent (worker_loop (map snd js)))"
  using assms
proof (induction js)
  case Nil
  have "sum_list (map (\<lambda>w. ({#} :: benchResult multiset)) [0..<unat numWorkers]) = {#}"
    by (induction "unat numWorkers") simp_all
  then show ?case
    by (simp add: outputs_concat queue_def)
next
  case (Cons j js)
  let ?one = "mset (sent (worker_loop [snd j]))"
  let ?g = "\<lambda>w. mset (sent (worker_loop (queue js w)))"
  have own: "unat (fst j) < unat numWorkers" using Cons.prems by simp
  have q: "(\<lambda>w. mset (sent (worker_loop (queue (j # js) w))))
     = (\<lambda>w. (if w = unat (fst j) then ?one else {#}) + ?g w)"
  proof
    fix w
    show "mset (sent (worker_loop (queue (j # js) w)))
      = (if w = unat (fst j) then ?one else {#}) + ?g w"
      using sent_loop_append [of "[snd j]" "queue js w"]
      by (cases "w = unat (fst j)") (simp_all add: queue_Cons)
  qed
  have "mset (concat (outputs numWorkers (j # js)))
     = ?one + sum_list (map ?g [0..<unat numWorkers])"
    by (simp only: outputs_concat q sum_list_one_owner [OF own])
  also have "sum_list (map ?g [0..<unat numWorkers]) = mset (concat (outputs numWorkers js))"
    by (simp only: outputs_concat)
  also have "\<dots> = mset (sent (worker_loop (map snd js)))"
    by (rule Cons.IH) (use Cons.prems in simp)
  finally show ?case
    using sent_loop_append [of "[snd j]" "map snd js"] by simp
qed

text \<open>
  Claim C7. A failed query is isolated. Whatever the worker has done before (\<open>pre\<close>) and
  has still to do (\<open>post\<close>), on a query error it logs the failure and goes on with the
  rest of its queue exactly as it would have without the failed task; the failed task
  sends no sample; and what every worker of the pool sends on \<^verbatim>\<open>results\<close> is what it would
  send had the failed task never been dispatched.
\<close>

theorem query_failure_isolated:
  "worker wid (pre @ (q, QueryError err) # post)
      = worker wid pre @ LogFailed err # worker_loop post
   \<and> sent (worker wid (pre @ (q, QueryError err) # post)) = sent (worker wid (pre @ post))
   \<and> outputs numWorkers (js1 @ (w, q, QueryError err) # js2) = outputs numWorkers (js1 @ js2)"
proof -
  have a: "worker wid (pre @ (q, QueryError err) # post)
      = worker wid pre @ LogFailed err # worker_loop post"
    by (simp add: worker_def worker_loop_append)
  have b: "sent (worker wid (pre @ (q, QueryError err) # post)) = sent (worker wid (pre @ post))"
    by (simp add: worker_def worker_loop_append sent_append)
  have "\<And>v. sent (worker v (queue (js1 @ (w, q, QueryError err) # js2) v))
        = sent (worker v (queue (js1 @ js2) v))"
    by (simp add: queue_append queue_Cons worker_def worker_loop_append sent_append)
  then have c: "outputs numWorkers (js1 @ (w, q, QueryError err) # js2) = outputs numWorkers (js1 @ js2)"
    by (simp add: outputs_def)
  from a b c show ?thesis by simp
qed

lemma read_loop_owner:
  assumes "1 \<le>s numWorkers" and "(w, t) \<in> set (fst (read_loop numWorkers rest))"
  shows "unat w < unat numWorkers"
proof -
  have "w = chosenWorker numWorkers (hostname t)"
    by (rule read_loop_index [OF assms(2)])
  moreover have "0 < unat numWorkers" using workers_positive [OF assms(1)] by simp
  ultimately show ?thesis by (simp add: unat_chosenWorker [OF assms(1)])
qed

lemma processCSV_owner:
  assumes "1 \<le>s numWorkers" and "(w, t) \<in> set (fst (processCSV numWorkers f))"
  shows "unat w < unat numWorkers"
  using assms(2) read_loop_owner [OF assms(1)]
  by (auto simp: processCSV_def split: if_splits list.splits read_result.splits)

lemma jobs_from:
  "j \<in> set (map (\<lambda>(i, (w, t)). (w, t, QueryRow i)) (enumerate k sends))
     \<Longrightarrow> (fst j, fst (snd j)) \<in> set sends"
proof -
  assume "j \<in> set (map (\<lambda>(i, (w, t)). (w, t, QueryRow i)) (enumerate k sends))"
  then obtain i w t where p: "(i, (w, t)) \<in> set (enumerate k sends)" and j: "j = (w, t, QueryRow i)"
    by auto
  from p have "i - k < length sends" and "sends ! (i - k) = (w, t)"
    by (auto simp: in_set_enumerate_eq)
  then have "(w, t) \<in> set sends" by (metis nth_mem)
  then show ?thesis by (simp add: j)
qed

lemma jobs_tasks:
  "map snd (map (\<lambda>(i, (w, t)). (w, t, QueryRow i)) (enumerate k sends))
     = map (\<lambda>(i, t). (t, QueryRow i)) (enumerate k (map snd sends))"
  by (induction sends arbitrary: k) auto

lemma read_loop_workers_irrelevant:
  assumes "1 \<le>s n1" and "1 \<le>s n2"
  shows "snd (read_loop n1 rest) = snd (read_loop n2 rest)
     \<and> map snd (fst (read_loop n1 rest)) = map snd (fst (read_loop n2 rest))"
proof (induction rest)
  case Nil
  show ?case by simp
next
  case (Cons r rest)
  show ?case
  proof (cases r)
    case (ReadError err)
    then show ?thesis by simp
  next
    case (Record fields)
    have z: "n1 \<noteq> 0" "n2 \<noteq> 0"
      using workers_positive [OF assms(1)] workers_positive [OF assms(2)] by simp_all
    obtain s1 e1 where r1: "read_loop n1 rest = (s1, e1)" by (cases "read_loop n1 rest")
    obtain s2 e2 where r2: "read_loop n2 rest = (s2, e2)" by (cases "read_loop n2 rest")
    show ?thesis
      using Cons.IH z chosenWorker_bounds [OF assms(1), of "fields ! 0"]
        chosenWorker_bounds [OF assms(2), of "fields ! 0"]
      by (simp add: Record Let_def r1 r2)
  qed
qed

lemma processCSV_workers_irrelevant:
  assumes "1 \<le>s n1" and "1 \<le>s n2"
  shows "snd (processCSV n1 f) = snd (processCSV n2 f)
     \<and> map snd (fst (processCSV n1 f)) = map snd (fst (processCSV n2 f))"
  using workers_positive [OF assms(1)] workers_positive [OF assms(2)]
    read_loop_workers_irrelevant [OF assms]
  by (simp add: processCSV_def split: list.splits read_result.splits)

lemma read_loop_length:
  "snd (read_loop numWorkers rest) = None \<Longrightarrow> length (fst (read_loop numWorkers rest)) = length rest"
proof (induction numWorkers rest rule: read_loop.induct)
  case (3 n r rest)
  then show ?case
    by (auto simp: Let_def split: if_splits prod.splits)
qed simp_all

lemma processCSV_length:
  "snd (processCSV numWorkers f) = None \<Longrightarrow> length (fst (processCSV numWorkers f)) = length (tl f)"
  by (auto simp: processCSV_def read_loop_length split: if_splits list.splits read_result.splits)

lemma successes_count:
  "length (sent (worker_loop (map (\<lambda>(i, t). (t, QueryRow i)) (enumerate k ts))))
     = length (filter (\<lambda>i. succeeded (QueryRow i)) [k..<k + length ts])"
proof (induction ts arbitrary: k)
  case Nil
  show ?case by simp
next
  case (Cons t ts)
  have "k < k + length (t # ts)" by simp
  then have "[k..<k + length (t # ts)] = k # [Suc k..<k + length (t # ts)]"
    by (rule upt_conv_Cons)
  moreover have "k + length (t # ts) = Suc k + length ts" by simp
  ultimately have "[k..<k + length (t # ts)] = k # [Suc k..<Suc k + length ts]"
    by (simp only:)
  then show ?case
    using Cons.IH [of "Suc k"] by (cases "QueryRow k") simp_all
qed

lemma delivers_mset:
  assumes "1 \<le>s numWorkers" and "delivers numWorkers f QueryRow results"
  shows "mset results = mset (sent (worker_loop (map (\<lambda>(i, t). (t, QueryRow i))
           (enumerate 0 (map snd (fst (processCSV numWorkers f)))))))"
proof -
  let ?js = "jobs (fst (processCSV numWorkers f)) QueryRow"
  have "\<forall>j \<in> set ?js. unat (fst j) < unat numWorkers"
  proof
    fix j assume "j \<in> set ?js"
    then have "(fst j, fst (snd j)) \<in> set (fst (processCSV numWorkers f))"
      unfolding jobs_def by (rule jobs_from)
    then show "unat (fst j) < unat numWorkers"
      by (rule processCSV_owner [OF assms(1)])
  qed
  then have "mset (concat (outputs numWorkers ?js)) = mset (sent (worker_loop (map snd ?js)))"
    by (rule outputs_mset)
  moreover have "mset results = mset (concat (outputs numWorkers ?js))"
    by (rule interleaves_mset) (use assms(2) in \<open>simp add: delivers_def\<close>)
  moreover have "map snd ?js = map (\<lambda>(i, t). (t, QueryRow i))
           (enumerate 0 (map snd (fst (processCSV numWorkers f))))"
    unfolding jobs_def by (rule jobs_tasks)
  ultimately show ?thesis by simp
qed

lemma delivered_count:
  assumes "1 \<le>s numWorkers" and "snd (processCSV numWorkers f) = None"
    and "delivers numWorkers f QueryRow results"
  shows "length results = length (filter (\<lambda>i. succeeded (QueryRow i)) [0..<length (tl f)])"
proof -
  have "mset results = mset (sent (worker_loop (map (\<lambda>(i, t). (t, QueryRow i))
           (enumerate 0 (map snd (fst (processCSV numWorkers f)))))))"
    by (rule delivers_mset [OF assms(1,3)])
  then have "length results = length (sent (worker_loop (map (\<lambda>(i, t). (t, QueryRow i))
           (enumerate 0 (map snd (fst (processCSV numWorkers f)))))))"
    by (rule mset_eq_length)
  also have "\<dots> = length (filter (\<lambda>i. succeeded (QueryRow i))
        [0..<0 + length (map snd (fst (processCSV numWorkers f)))])"
    by (rule successes_count)
  finally show ?thesis
    by (simp add: processCSV_length [OF assms(2)])
qed

section \<open>The whole run\<close>

lemma summary_nonempty:
  assumes "queryTimes c \<noteq> []" and "length (queryTimes c) < 2 ^ 63"
  shows "\<exists>rep. summary c = Inr rep \<and> numQueries rep = length (queryTimes c)"
proof -
  have "0 < length (queryTimes c)" using assms(1) by simp
  moreover have "length (queryTimes c) < 2 ^ LENGTH(64)"
    using assms(2) by simp
  ultimately have "(of_nat (length (queryTimes c)) :: 64 word) \<noteq> 0"
    by (rule of_nat_neq_0)
  then show ?thesis by (simp add: summary_def)
qed

lemma collect_length:
  "results \<noteq> [] \<Longrightarrow> \<exists>c. collect results = Inr c \<and> length (queryTimes c) = length results"
  by (cases results) (simp_all add: collect_Cons)

text \<open>
  Claim C5. Count conservation. For an input that \<^verbatim>\<open>processCSV\<close> reads to its end (of fewer
  than \<open>2^63\<close> records) and a pool of \<open>numWorkers \<ge> 1\<close>, whatever the interleaving: the
  collector receives exactly as many samples as there are data records (header excluded)
  whose query succeeded, and whenever it receives any, \<^verbatim>\<open>main\<close> prints its summary and the
  number of queries it reports is that count.
\<close>

theorem count_conservation:
  assumes "1 \<le>s numWorkers" and "snd (processCSV numWorkers f) = None"
    and "delivers numWorkers f QueryRow results" and "length f < 2 ^ 63"
  shows "length results = length (filter (\<lambda>i. succeeded (QueryRow i)) [0..<length (tl f)])
     \<and> (results \<noteq> [] \<longrightarrow>
          (\<exists>rep. main numWorkers f results = Inr rep
             \<and> numQueries rep = length (filter (\<lambda>i. succeeded (QueryRow i)) [0..<length (tl f)])))"
proof -
  let ?k = "length (filter (\<lambda>i. succeeded (QueryRow i)) [0..<length (tl f)])"
  have len: "length results = ?k"
    by (rule delivered_count [OF assms(1,2,3)])
  have "?k \<le> length [0..<length (tl f)]" by (rule length_filter_le)
  then have small: "length results < 2 ^ 63"
    using assms(4) len by simp
  have "\<exists>rep. main numWorkers f results = Inr rep \<and> numQueries rep = ?k" if "results \<noteq> []"
  proof -
    from collect_length [OF that] obtain c where c: "collect results = Inr c"
      and lc: "length (queryTimes c) = length results" by blast
    have "queryTimes c \<noteq> []" using that lc by auto
    moreover have "length (queryTimes c) < 2 ^ 63" using small lc by simp
    ultimately obtain rep where "summary c = Inr rep" "numQueries rep = length (queryTimes c)"
      using summary_nonempty by blast
    then show ?thesis
      using workers_positive [OF assms(1)] assms(2) c lc len by (simp add: main_def)
  qed
  with len show ?thesis by blast
qed

theorem count_conservation_witness:
  "(1 :: 64 word) \<le>s 2
   \<and> snd (processCSV 2 scenario) = None
   \<and> delivers 2 scenario scenario_QueryRow [\<lparr>queryTime = 700\<rparr>, \<lparr>queryTime = 1500\<rparr>, \<lparr>queryTime = 2300\<rparr>]
   \<and> length (filter (\<lambda>i. succeeded (scenario_QueryRow i)) [0..<length (tl scenario)]) = 3
   \<and> (\<exists>rep. main 2 scenario [\<lparr>queryTime = 700\<rparr>, \<lparr>queryTime = 1500\<rparr>, \<lparr>queryTime = 2300\<rparr>] = Inr rep
         \<and> numQueries rep = 3)"
proof -
  have h1: "(1 :: 64 word) \<le>s 2" by code_simp
  have h2: "snd (processCSV 2 scenario) = None" by code_simp
  have h3: "delivers 2 scenario scenario_QueryRow
      [\<lparr>queryTime = 700\<rparr>, \<lparr>queryTime = 1500\<rparr>, \<lparr>queryTime = 2300\<rparr>]" by code_simp
  have h4: "length scenario < 2 ^ 63" by (simp add: scenario_def)
  have k: "length (filter (\<lambda>i. succeeded (scenario_QueryRow i)) [0..<length (tl scenario)]) = 3"
    by code_simp
  have "\<exists>rep. main 2 scenario [\<lparr>queryTime = 700\<rparr>, \<lparr>queryTime = 1500\<rparr>, \<lparr>queryTime = 2300\<rparr>] = Inr rep
         \<and> numQueries rep
           = length (filter (\<lambda>i. succeeded (scenario_QueryRow i)) [0..<length (tl scenario)])"
    using count_conservation [OF h1 h2 h3 h4] by blast
  then have e: "\<exists>rep. main 2 scenario [\<lparr>queryTime = 700\<rparr>, \<lparr>queryTime = 1500\<rparr>, \<lparr>queryTime = 2300\<rparr>] = Inr rep
         \<and> numQueries rep = 3"
    by (simp only: k)
  from h1 h2 h3 k e show ?thesis by blast
qed

text \<open>
  Claim C1. The claim asks for a normal end with degenerate statistics when no sample is
  produced. The program does otherwise: for an input that \<^verbatim>\<open>processCSV\<close> reads to its end and
  none of whose queries succeeds (in particular one with a header only), nothing is ever
  sent on \<^verbatim>\<open>results\<close>, and \<^verbatim>\<open>main\<close> stays in its first receive and prints no summary.
\<close>

theorem no_samples_never_reports:
  assumes "1 \<le>s numWorkers" and "snd (processCSV numWorkers f) = None"
    and "\<forall>i < length (tl f). \<not> succeeded (QueryRow i)"
    and "delivers numWorkers f QueryRow results"
  shows "results = [] \<and> main numWorkers f results = Inl Blocked"
proof -
  have "filter (\<lambda>i. succeeded (QueryRow i)) [0..<length (tl f)] = []"
    using assms(3) by (simp add: filter_empty_conv)
  then have "length results = 0"
    using delivered_count [OF assms(1,2,4)] by simp
  then have "results = []" by simp
  then show ?thesis
    using workers_positive [OF assms(1)] assms(2) by (simp add: main_def collect_def)
qed

theorem no_samples_never_reports_witness:
  "delivers 2 [Record [''hostname'', ''start'', ''end'']] (\<lambda>i. QueryError ''timeout'') []
   \<and> main 2 [Record [''hostname'', ''start'', ''end'']] [] = Inl Blocked
   \<and> delivers 2 [Record [''hostname'', ''start'', ''end''],
                  Record [''host_000008'', ''2017-01-01 08:59:22'', ''2017-01-01 09:59:22'']]
        (\<lambda>i. QueryError ''timeout'') []
   \<and> main 2 [Record [''hostname'', ''start'', ''end''],
              Record [''host_000008'', ''2017-01-01 08:59:22'', ''2017-01-01 09:59:22'']] []
        = Inl Blocked"
proof -
  let ?f = "[Record [''hostname'', ''start'', ''end'']]"
  let ?g = "[Record [''hostname'', ''start'', ''end''],
             Record [''host_000008'', ''2017-01-01 08:59:22'', ''2017-01-01 09:59:22'']]"
  let ?Q = "\<lambda>i :: nat. QueryError ''timeout''"
  have h1: "(1 :: 64 word) \<le>s 2" by code_simp
  have f2: "snd (processCSV 2 ?f) = None" by code_simp
  have g2: "snd (processCSV 2 ?g) = None" by code_simp
  have f3: "\<forall>i < length (tl ?f). \<not> succeeded (?Q i)" by simp
  have g3: "\<forall>i < length (tl ?g). \<not> succeeded (?Q i)" by simp
  have f4: "delivers 2 ?f ?Q []" by code_simp
  have g4: "delivers 2 ?g ?Q []" by code_simp
  from no_samples_never_reports [OF h1 f2 f3 f4] no_samples_never_reports [OF h1 g2 g3 g4] f4 g4
  show ?thesis by simp
qed

text \<open>
  Claim C6. Worker-count invariance. For a fixed input and fixed query outcomes, any two
  pool sizes \<open>n1, n2 \<ge> 1\<close> and any two interleavings, the collector receives the same
  multiset of samples, ends with the same sorted samples, total, minimum, maximum and
  median, and \<^verbatim>\<open>main\<close> ends with the same summary (or the same failure).
\<close>

theorem worker_count_invariance:
  assumes "1 \<le>s n1" and "1 \<le>s n2"
    and "delivers n1 f QueryRow results1" and "delivers n2 f QueryRow results2"
  shows "mset results1 = mset results2
     \<and> collect results1 = collect results2
     \<and> main n1 f results1 = main n2 f results2"
proof -
  have same: "snd (processCSV n1 f) = snd (processCSV n2 f)"
    and tasks: "map snd (fst (processCSV n1 f)) = map snd (fst (processCSV n2 f))"
    using processCSV_workers_irrelevant [OF assms(1,2)] by simp_all
  have m: "mset results1 = mset results2"
    using delivers_mset [OF assms(1,3)] delivers_mset [OF assms(2,4)] by (simp only: tasks)
  then have c: "collect results1 = collect results2" by (rule collect_mset)
  have "main n1 f results1 = main n2 f results2"
    using workers_positive [OF assms(1)] workers_positive [OF assms(2)] same c
    by (simp add: main_def split: option.splits)
  with m c show ?thesis by simp
qed

theorem worker_count_invariance_witness:
  "(1 :: 64 word) \<le>s 1 \<and> (1 :: 64 word) \<le>s 2
   \<and> delivers 1 scenario scenario_QueryRow [\<lparr>queryTime = 1500\<rparr>, \<lparr>queryTime = 700\<rparr>, \<lparr>queryTime = 2300\<rparr>]
   \<and> delivers 2 scenario scenario_QueryRow [\<lparr>queryTime = 700\<rparr>, \<lparr>queryTime = 1500\<rparr>, \<lparr>queryTime = 2300\<rparr>]
   \<and> main 1 scenario [\<lparr>queryTime = 1500\<rparr>, \<lparr>queryTime = 700\<rparr>, \<lparr>queryTime = 2300\<rparr>]
       = main 2 scenario [\<lparr>queryTime = 700\<rparr>, \<lparr>queryTime = 1500\<rparr>, \<lparr>queryTime = 2300\<rparr>]
   \<and> main 2 scenario [\<lparr>queryTime = 700\<rparr>, \<lparr>queryTime = 1500\<rparr>, \<lparr>queryTime = 2300\<rparr>]
       = Inr \<lparr>numQueries = 3, totalMs = 4, minMs = 0, maxMs = 2, meanMs = 1, medianMs = 1\<rparr>"
proof -
  have h1: "(1 :: 64 word) \<le>s 1" by code_simp
  have h2: "(1 :: 64 word) \<le>s 2" by code_simp
  have h3: "delivers 1 scenario scenario_QueryRow
      [\<lparr>queryTime = 1500\<rparr>, \<lparr>queryTime = 700\<rparr>, \<lparr>queryTime = 2300\<rparr>]" by code_simp
  have h4: "delivers 2 scenario scenario_QueryRow
      [\<lparr>queryTime = 700\<rparr>, \<lparr>queryTime = 1500\<rparr>, \<lparr>queryTime = 2300\<rparr>]" by code_simp
  have v: "main 2 scenario [\<lparr>queryTime = 700\<rparr>, \<lparr>queryTime = 1500\<rparr>, \<lparr>queryTime = 2300\<rparr>]
       = Inr \<lparr>numQueries = 3, totalMs = 4, minMs = 0, maxMs = 2, meanMs = 1, medianMs = 1\<rparr>"
    by code_simp
  from worker_count_invariance [OF h1 h2 h3 h4] h1 h2 h3 h4 v show ?thesis by simp
qed

end
